theory Spec2Isabelle
  imports Complex_Main
begin

section \<open>Helix drawer: data preparation and helix geometry\<close>

text \<open>
  A shallow embedding of \<^verbatim>\<open>helix_drawer.py\<close>. Python exceptions are values of
  the type \<open>error\<close>; a function that may raise returns \<open>error + 'a\<close> with \<open>Inl\<close>
  for the exception. A row of the parsed table is a list of strings (the columns), a base
  symbol is a character, and a colour token is a string.

  Three libraries are called by the source and are not part of it. The source refers to
  NumPy as \<^verbatim>\<open>np\<close> without an import statement of its own; the name is taken to be bound
  to NumPy. NumPy's \<^verbatim>\<open>linspace\<close>, \<^verbatim>\<open>genfromtxt\<close> and array indexing are
  modelled from their implementation. The float64 arithmetic of the coordinate arrays is idealised as exact
  arithmetic over \<open>real\<close>, so nothing below speaks about rounding. The rendering calls
  (matplotlib, pyvista, py3Dmol) are not modelled: the rendering functions return the
  data they hand to the renderer.
\<close>

subsection \<open>Exceptions and raising comprehensions\<close>

datatype error = OSError | ValueError | IndexError | KeyError char

text \<open>\<^verbatim>\<open>xs[i]\<close> for an index \<open>i \<ge> 0\<close>: out of range raises \<^verbatim>\<open>IndexError\<close>.\<close>

definition getitem :: "'a list \<Rightarrow> nat \<Rightarrow> error + 'a" where
  "getitem xs i = (if i < length xs then Inr (xs ! i) else Inl IndexError)"


text \<open>A list comprehension \<^verbatim>\<open>[f(x) for x in xs]\<close> (or a \<^verbatim>\<open>for\<close> loop that
  collects one value per element) whose element expression may raise: elements are
  evaluated left to right and the first exception ends the evaluation.\<close>

fun comprehension :: "('a \<Rightarrow> error + 'b) \<Rightarrow> 'a list \<Rightarrow> error + 'b list" where
  "comprehension f [] = Inr []"
| "comprehension f (x # xs) =
     (case f x of
        Inl e \<Rightarrow> Inl e
      | Inr y \<Rightarrow> (case comprehension f xs of Inl e \<Rightarrow> Inl e | Inr ys \<Rightarrow> Inr (y # ys)))"


subsection \<open>Configuration constants (\<^verbatim>\<open>DNAConfig\<close>)\<close>

definition RADIUS :: real where "RADIUS = 4"
definition VERTICAL_STRETCH :: real where "VERTICAL_STRETCH = 4"
definition CYLINDER_RADIUS :: real where "CYLINDER_RADIUS = 15 / 100"



subsection \<open>\<^verbatim>\<open>numpy.genfromtxt\<close> and \<^verbatim>\<open>parse_ancestry_dna\<close>\<close>

definition TAB :: char where "TAB = CHR 0x09"
definition LF :: char where "LF = CHR 0x0A"
definition CR :: char where "CR = CHR 0x0D"

text \<open>\<^verbatim>\<open>s.split(sep)\<close> for a one-character separator: never empty, one more piece than
  there are separators.\<close>

fun str_split :: "char \<Rightarrow> string \<Rightarrow> string list" where
  "str_split sep [] = [[]]"
| "str_split sep (c # cs) =
     (if c = sep then [] # str_split sep cs
      else (case str_split sep cs of [] \<Rightarrow> [[c]] | w # ws \<Rightarrow> (c # w) # ws))"

text \<open>\<^verbatim>\<open>s.strip(chars)\<close>: the characters of \<open>chars\<close> are removed from both ends.\<close>

definition str_strip :: "string \<Rightarrow> string \<Rightarrow> string" where
  "str_strip chars s =
     rev (dropWhile (\<lambda>c. c \<in> set chars) (rev (dropWhile (\<lambda>c. c \<in> set chars) s)))"

text \<open>
  NumPy's line splitter as \<^verbatim>\<open>genfromtxt\<close> configures it for
  \<^verbatim>\<open>delimiter='\t', comments='#'\<close> (no autostrip): the line is cut at the first
  \<open>#\<close>, spaces, carriage returns and newlines are stripped from both ends, an empty
  remainder gives no values, and anything else is split at every tab.
\<close>

definition split_line :: "string \<Rightarrow> string list" where
  "split_line line =
     (let line1 = hd (str_split (CHR ''#'') line);
          line2 = str_strip [CHR '' '', CR, LF] line1
      in if line2 = [] then [] else str_split TAB line2)"







subsection \<open>\<^verbatim>\<open>process_dna_batch\<close>\<close>

definition process_dna_batch :: "string list list \<Rightarrow> error + (char list \<times> char list)" where
  "process_dna_batch batch_data =
     (case comprehension (\<lambda>entry. getitem entry 3) batch_data of
        Inl e \<Rightarrow> Inl e
      | Inr genotypes \<Rightarrow>
          Inr (map (\<lambda>g. if length g > 0 then g ! 0 else CHR ''A'') genotypes,
               map (\<lambda>g. if length g > 1 then g ! 1 else CHR ''T'') genotypes))"

subsection \<open>\<^verbatim>\<open>numpy.linspace\<close> and \<^verbatim>\<open>calculate_helix_coordinates\<close>\<close>

text \<open>
  \<^verbatim>\<open>np.linspace(start, stop, num)\<close> with the default \<^verbatim>\<open>endpoint=True\<close>, following
  NumPy's implementation: a negative \<open>num\<close> raises \<^verbatim>\<open>ValueError\<close>; otherwise
  \<^verbatim>\<open>y = arange(0, num)\<close> is scaled by \<^verbatim>\<open>step = delta / div\<close> when
  \<^verbatim>\<open>div = num - 1\<close> is positive and by \<^verbatim>\<open>delta\<close> when it is not, shifted by
  \<^verbatim>\<open>start\<close>, and the last sample is overwritten by \<^verbatim>\<open>stop\<close> when
  \<^verbatim>\<open>num > 1\<close>.
\<close>

definition linspace :: "real \<Rightarrow> real \<Rightarrow> int \<Rightarrow> error + real list" where
  "linspace start stop num =
     (if num < 0 then Inl ValueError
      else
        let n = nat num;
            dv = num - 1;
            delta = stop - start;
            y0 = map real [0..<n];
            y1 = (if 0 < dv then map (\<lambda>v. v * (delta / real_of_int dv)) y0
                  else map (\<lambda>v. v * delta) y0);
            y2 = map (\<lambda>v. v + start) y1
        in Inr (if 1 < num then y2[n - 1 := stop] else y2))"

text \<open>
  The body of \<^verbatim>\<open>calculate_helix_coordinates\<close> (the function under the
  \<^verbatim>\<open>lru_cache\<close> decorator). The result array has one row of six columns per sample:
  columns 0 to 2 are the strand-A point, columns 3 to 5 the strand-B point.
\<close>

definition calculate_helix_coordinates :: "int \<Rightarrow> error + real list list" where
  "calculate_helix_coordinates base_pairs =
     (case linspace 0 (8 * pi) base_pairs of
        Inl e \<Rightarrow> Inl e
      | Inr t \<Rightarrow>
          Inr (map (\<lambda>t. [RADIUS * cos t, RADIUS * sin t, VERTICAL_STRETCH * t,
                         RADIUS * cos (t + pi), RADIUS * sin (t + pi), VERTICAL_STRETCH * t]) t))"

subsection \<open>\<^verbatim>\<open>functools.lru_cache(maxsize=128)\<close>\<close>

text \<open>
  The decorator keeps, per key, the object returned by the decorated function, in order
  of use. \<open>entries\<close> lists the cached pairs, most recently used first. An object has an
  identity besides its contents: the array built by one execution of the function body is
  tagged with the serial number of that execution (the value of \<open>misses\<close> when it
  started), so that two results are the same object exactly when tag and contents agree.
  \<open>hits\<close> and \<open>misses\<close> are the counters of \<^verbatim>\<open>cache_info()\<close>; following
  CPython, \<open>misses\<close> counts every call that ran the function body.
\<close>

definition maxsize :: nat where "maxsize = 128"

record 'v lru_cache =
  entries :: "(int \<times> (nat \<times> 'v)) list"
  hits :: nat
  misses :: nat

definition new_cache :: "'v lru_cache" where
  "new_cache = \<lparr>entries = [], hits = 0, misses = 0\<rparr>"

text \<open>
  One call of the decorated function. A hit moves the entry to the front and returns the
  cached object. A miss runs the function; an exception propagates and nothing is stored;
  a result is stored at the front, after the least recently used entry has been dropped
  when the cache already holds \<open>maxsize\<close> entries.
\<close>

definition lru_cache_wrapper ::
  "(int \<Rightarrow> error + 'v) \<Rightarrow> 'v lru_cache \<Rightarrow> int \<Rightarrow> (error + (nat \<times> 'v)) \<times> 'v lru_cache" where
  "lru_cache_wrapper user_function c key =
     (case map_of (entries c) key of
        Some result \<Rightarrow>
          (Inr result,
           c\<lparr>entries := (key, result) # filter (\<lambda>e. fst e \<noteq> key) (entries c),
             hits := hits c + 1\<rparr>)
      | None \<Rightarrow>
          (case user_function key of
             Inl e \<Rightarrow> (Inl e, c\<lparr>misses := misses c + 1\<rparr>)
           | Inr v \<Rightarrow>
               let result = (misses c, v);
                   kept = (if maxsize \<le> length (entries c) then butlast (entries c)
                           else entries c)
               in (Inr result, c\<lparr>entries := (key, result) # kept, misses := misses c + 1\<rparr>)))"

text \<open>\<^verbatim>\<open>calculate_helix_coordinates\<close> as callers see it, under its decorator.\<close>

definition calculate_helix_coordinates_cached ::
  "(real list list) lru_cache \<Rightarrow> int \<Rightarrow>
     (error + (nat \<times> real list list)) \<times> (real list list) lru_cache" where
  "calculate_helix_coordinates_cached = lru_cache_wrapper calculate_helix_coordinates"

text \<open>The cache after a sequence of calls, results discarded.\<close>

fun after_calls :: "(real list list) lru_cache \<Rightarrow> int list \<Rightarrow> (real list list) lru_cache" where
  "after_calls c [] = c"
| "after_calls c (k # ks) = after_calls (snd (calculate_helix_coordinates_cached c k)) ks"

text \<open>The order of the keys of the cache after a call for \<open>k\<close> whose function body returns.\<close>

definition touch :: "int list \<Rightarrow> int \<Rightarrow> int list" where
  "touch keys k =
     (if k \<in> set keys then k # filter (\<lambda>j. j \<noteq> k) keys
      else k # (if maxsize \<le> length keys then butlast keys else keys))"

text \<open>
  \<open>holds N r P c\<close>: the cache \<open>c\<close> has one entry per key, the object \<open>r\<close> is cached
  for the key \<open>N\<close>, and every key used more recently than \<open>N\<close> belongs to \<open>P\<close>.
\<close>

definition holds :: "int \<Rightarrow> nat \<times> 'v \<Rightarrow> int set \<Rightarrow> 'v lru_cache \<Rightarrow> bool" where
  "holds N r P c \<longleftrightarrow>
     distinct (map fst (entries c)) \<and>
     (\<exists>newer older. entries c = newer @ (N, r) # older \<and> fst ` set newer \<subseteq> P)"

subsection \<open>The rendering paths\<close>





text \<open>\<^verbatim>\<open>generate_dna_helix\<close>: the two strand lines, the arguments of the two
  \<^verbatim>\<open>scatter\<close> calls (coordinate columns and colour list), and the rungs. What
  matplotlib does with a colour list shorter than the coordinate columns is outside the
  model.\<close>

record plot2d =
  line1 :: "real list \<times> real list \<times> real list"
  line2 :: "real list \<times> real list \<times> real list"
  scatter1 :: "(real list \<times> real list \<times> real list) \<times> string list"
  scatter2 :: "(real list \<times> real list \<times> real list) \<times> string list"
  rungs :: "(real list \<times> real list \<times> real list) list"







section \<open>Properties\<close>

subsection \<open>Raising comprehensions\<close>

lemma comprehension_total:
  "(\<And>x. x \<in> set xs \<Longrightarrow> f x = Inr (g x)) \<Longrightarrow> comprehension f xs = Inr (map g xs)"
  by (induction xs) simp_all





subsection \<open>The batch resolver\<close>

text \<open>
  Claim C2. For every batch of genotype records (rows that have the genotype column,
  index 3), \<^verbatim>\<open>process_dna_batch\<close> returns two symbol sequences of the length of the
  batch, aligned with it by index: the strand-A symbol of a record is the first character
  of its genotype, or \<open>A\<close> when the genotype is empty; the strand-B symbol is the second
  character, or \<open>T\<close> when the genotype has fewer than two characters. The empty batch
  gives two empty sequences.
\<close>

theorem process_dna_batch_resolves:
  assumes "\<forall>entry \<in> set batch_data. 3 < length entry"
  shows "\<exists>bases1 bases2.
           process_dna_batch batch_data = Inr (bases1, bases2)
         \<and> length bases1 = length batch_data
         \<and> length bases2 = length batch_data
         \<and> (\<forall>i < length batch_data.
               bases1 ! i = (case batch_data ! i ! 3 of [] \<Rightarrow> CHR ''A'' | c # _ \<Rightarrow> c)
             \<and> bases2 ! i = (case batch_data ! i ! 3 of c # d # _ \<Rightarrow> d | _ \<Rightarrow> CHR ''T''))
         \<and> (batch_data = [] \<longrightarrow> bases1 = [] \<and> bases2 = [])"
proof -
  have "comprehension (\<lambda>entry. getitem entry 3) batch_data = Inr (map (\<lambda>entry. entry ! 3) batch_data)"
    using assms by (intro comprehension_total) (simp add: getitem_def)
  then have "process_dna_batch batch_data =
      Inr (map (\<lambda>g. if length g > 0 then g ! 0 else CHR ''A'') (map (\<lambda>entry. entry ! 3) batch_data),
           map (\<lambda>g. if length g > 1 then g ! 1 else CHR ''T'') (map (\<lambda>entry. entry ! 3) batch_data))"
    by (simp add: process_dna_batch_def)
  then show ?thesis
    by (auto split: list.splits)
qed

theorem process_dna_batch_resolves_witness:
  "process_dna_batch [[''rs1'', ''1'', ''100'', ''AG''], [''rs3'', ''X'', ''300'', ''A''],
                      [''rs4'', ''2'', ''400'', '''']]
     = Inr (''AAA'', ''GTT'')
   \<and> process_dna_batch [] = Inr ([], [])"
proof -
  let ?b = "[[''rs1'', ''1'', ''100'', ''AG''], [''rs3'', ''X'', ''300'', ''A''],
             [''rs4'', ''2'', ''400'', '''']]"
  have h: "\<forall>entry \<in> set ?b. 3 < length entry" by simp
  from process_dna_batch_resolves[OF h] obtain bases1 bases2 where
    r: "process_dna_batch ?b = Inr (bases1, bases2)" by blast
  have e: "\<forall>entry \<in> set ([] :: string list list). 3 < length entry" by simp
  from process_dna_batch_resolves[OF e] have "process_dna_batch [] = Inr ([], [])" by auto
  moreover have "process_dna_batch ?b = Inr (''AAA'', ''GTT'')"
    using r by (simp add: process_dna_batch_def getitem_def)
  ultimately show ?thesis by simp
qed

subsection \<open>Helix geometry\<close>

lemma linspace_neg: "num < 0 \<Longrightarrow> linspace a b num = Inl ValueError"
  by (simp add: linspace_def)

lemma linspace_samples:
  assumes "0 \<le> num"
  shows "linspace a b num =
           Inr (map (\<lambda>i. if 1 < num then a + real i * ((b - a) / real_of_int (num - 1)) else a)
                  [0..<nat num])"
proof (cases "1 < num")
  case True
  let ?n = "nat num"
  let ?step = "(b - a) / real_of_int (num - 1)"
  have n: "0 < ?n" "real (?n - 1) = real_of_int (num - 1)" using True by auto
  have last: "a + real (?n - 1) * ?step = b" using True n by simp
  have "(map (\<lambda>v. v + a) (map (\<lambda>v. v * ?step) (map real [0..<?n])))[?n - 1 := b]
        = map (\<lambda>i. a + real i * ?step) [0..<?n]"
    by (rule nth_equalityI) (use last in \<open>auto simp: nth_list_update\<close>)
  with True show ?thesis by (simp add: linspace_def Let_def)
next
  case False
  with assms have "num = 0 \<or> num = 1" by auto
  then show ?thesis using False by (auto simp: linspace_def Let_def)
qed

lemma calculate_helix_coordinates_nonneg:
  assumes "0 \<le> N"
  shows "calculate_helix_coordinates N =
           Inr (map (\<lambda>i. let t = (if 1 < N then real i * (8 * pi / real_of_int (N - 1)) else 0)
                          in [RADIUS * cos t, RADIUS * sin t, VERTICAL_STRETCH * t,
                              RADIUS * cos (t + pi), RADIUS * sin (t + pi), VERTICAL_STRETCH * t])
                  [0..<nat N])"
  using assms by (simp add: calculate_helix_coordinates_def linspace_samples Let_def comp_def)


text \<open>
  Claim C1. For a positive number \<open>N\<close> of base pairs the generator samples \<open>t\<close> at
  \<open>N\<close> points of \<open>[0, 8\<pi>]\<close>: the first is \<open>0\<close>, the last is \<open>8\<pi>\<close> (when there
  are at least two), and consecutive samples are \<open>8\<pi> / (N - 1)\<close> apart. It returns
  \<open>N\<close> rows, and row \<open>i\<close> holds the strand-A point
  \<open>(R cos t, R sin t, S t)\<close> in columns 0 to 2 and the strand-B point
  \<open>(R cos (t + \<pi>), R sin (t + \<pi>), S t)\<close> in columns 3 to 5, for the \<open>i\<close>-th sample
  \<open>t\<close>, so the two strands are aligned by index.
\<close>

theorem calculate_helix_coordinates_samples:
  assumes "0 < N"
  shows "\<exists>t coords.
           linspace 0 (8 * pi) N = Inr t
         \<and> calculate_helix_coordinates N = Inr coords
         \<and> length t = nat N \<and> length coords = nat N
         \<and> t ! 0 = 0
         \<and> (1 < N \<longrightarrow> t ! (nat N - 1) = 8 * pi)
         \<and> (\<forall>i. Suc i < nat N \<longrightarrow> t ! Suc i - t ! i = 8 * pi / real_of_int (N - 1))
         \<and> (\<forall>i < nat N. 0 \<le> t ! i \<and> t ! i \<le> 8 * pi)
         \<and> (\<forall>i < nat N.
               take 3 (coords ! i) =
                 [RADIUS * cos (t ! i), RADIUS * sin (t ! i), VERTICAL_STRETCH * (t ! i)]
             \<and> drop 3 (coords ! i) =
                 [RADIUS * cos (t ! i + pi), RADIUS * sin (t ! i + pi), VERTICAL_STRETCH * (t ! i)])"
proof -
  let ?step = "8 * pi / real_of_int (N - 1)"
  let ?t = "map (\<lambda>i. if 1 < N then real i * ?step else 0) [0..<nat N]"
  have lin: "linspace 0 (8 * pi) N = Inr ?t"
    using assms by (simp add: linspace_samples)
  let ?coords = "map (\<lambda>t. [RADIUS * cos t, RADIUS * sin t, VERTICAL_STRETCH * t,
                         RADIUS * cos (t + pi), RADIUS * sin (t + pi), VERTICAL_STRETCH * t]) ?t"
  have calc: "calculate_helix_coordinates N = Inr ?coords"
    by (simp add: calculate_helix_coordinates_def lin)
  have len: "length ?t = nat N" "length ?coords = nat N" by simp_all
  have first: "?t ! 0 = 0" using assms by simp
  have last: "?t ! (nat N - 1) = 8 * pi" if "1 < N"
  proof -
    have "real (nat N - 1) = real_of_int (N - 1)" using that by auto
    then show ?thesis using that by simp
  qed
  have gap: "?t ! Suc i - ?t ! i = ?step" if "Suc i < nat N" for i
  proof -
    have "1 < N" using that by auto
    moreover have "real (Suc i) * s - real i * s = s" for s :: real
      by (simp add: algebra_simps)
    ultimately show ?thesis using that by (simp del: of_nat_Suc times_divide_eq_right)
  qed
  have range: "0 \<le> ?t ! i \<and> ?t ! i \<le> 8 * pi" if "i < nat N" for i
  proof (cases "1 < N")
    case True
    then have pos: "0 < real_of_int (N - 1)" by simp
    have le: "real i \<le> real_of_int (N - 1)" using that True by auto
    have "real i * ?step = 8 * pi * (real i / real_of_int (N - 1))" by simp
    moreover have "real i / real_of_int (N - 1) \<le> 1" using le pos by simp
    moreover have "0 \<le> real i / real_of_int (N - 1)" using pos by simp
    ultimately have "0 \<le> real i * ?step \<and> real i * ?step \<le> 8 * pi"
      by (metis mult.right_neutral mult_left_mono mult_nonneg_nonneg pi_ge_zero
            zero_le_numeral)
    then show ?thesis using that True by simp
  next
    case False
    then show ?thesis using that by simp
  qed
  have rows: "take 3 (?coords ! i) =
                 [RADIUS * cos (?t ! i), RADIUS * sin (?t ! i), VERTICAL_STRETCH * (?t ! i)]
             \<and> drop 3 (?coords ! i) =
                 [RADIUS * cos (?t ! i + pi), RADIUS * sin (?t ! i + pi), VERTICAL_STRETCH * (?t ! i)]"
    if "i < nat N" for i
    using that by (simp del: upt_Suc)
  show ?thesis
    using lin calc len first last gap range rows by blast
qed

theorem calculate_helix_coordinates_samples_witness:
  "calculate_helix_coordinates 2 = Inr [[4, 0, 0, -4, 0, 0], [4, 0, 32 * pi, -4, 0, 32 * pi]]"
proof -
  have h: "(0::int) < 2" by simp
  from calculate_helix_coordinates_samples[OF h] obtain t coords where
    c: "calculate_helix_coordinates 2 = Inr coords" and l: "length coords = nat 2" 
    and t: "length t = nat 2" "t ! 0 = 0" "t ! (nat 2 - 1) = 8 * pi"
    and r: "\<forall>i < nat 2.
               take 3 (coords ! i) =
                 [RADIUS * cos (t ! i), RADIUS * sin (t ! i), VERTICAL_STRETCH * (t ! i)]
             \<and> drop 3 (coords ! i) =
                 [RADIUS * cos (t ! i + pi), RADIUS * sin (t ! i + pi), VERTICAL_STRETCH * (t ! i)]"
    by auto
  have t1: "t ! 1 = 8 * pi" using t by simp
  have r0: "coords ! 0 = [4, 0, 0, -4, 0, 0]"
    using r[rule_format, of 0] t(2) append_take_drop_id[of 3 "coords ! 0"]
    by (simp add: RADIUS_def VERTICAL_STRETCH_def)
  have c8: "cos (8 * pi) = 1" "sin (8 * pi) = 0"
    using cos_npi[of 8] sin_npi[of 8] by (simp_all add: mult.commute)
  have r1: "coords ! 1 = [4, 0, 32 * pi, -4, 0, 32 * pi]"
    using r[rule_format, of 1] t1 append_take_drop_id[of 3 "coords ! 1"] c8
    by (simp add: RADIUS_def VERTICAL_STRETCH_def)
  have "coords = [coords ! 0, coords ! 1]"
    using l by (intro nth_equalityI) (auto simp: less_Suc_eq numeral_2_eq_2)
  with c r0 r1 show ?thesis by simp
qed

text \<open>
  Claim C4, as stated, fails at \<open>base_pairs = 0\<close>: \<^verbatim>\<open>np.linspace\<close> accepts zero
  samples and the generator returns an empty coordinate array.
\<close>

theorem calculate_helix_coordinates_zero_counterexample:
  "calculate_helix_coordinates 0 = Inr []"
  by (simp add: calculate_helix_coordinates_def linspace_def)

text \<open>
  Claim C4, amended. The generator has no argument check of its own: it fails exactly
  when \<open>base_pairs\<close> is negative, with the \<^verbatim>\<open>ValueError\<close> that
  \<^verbatim>\<open>np.linspace\<close> raises, and for \<open>base_pairs = 0\<close> it returns the empty array.
\<close>

theorem calculate_helix_coordinates_fails_iff:
  "(calculate_helix_coordinates base_pairs = Inl ValueError \<longleftrightarrow> base_pairs < 0)
   \<and> ((\<exists>e. calculate_helix_coordinates base_pairs = Inl e) \<longleftrightarrow> base_pairs < 0)
   \<and> (base_pairs = 0 \<longrightarrow> calculate_helix_coordinates base_pairs = Inr [])"
  by (cases "base_pairs < 0")
     (auto simp: calculate_helix_coordinates_def linspace_neg linspace_samples)

theorem calculate_helix_coordinates_fails_iff_witness:
  "calculate_helix_coordinates (- 1) = Inl ValueError \<and> (- 1 :: int) < 0"
  using calculate_helix_coordinates_fails_iff[of "- 1"] by simp

subsection \<open>The coordinate cache\<close>

lemma wrapper_hit:
  "map_of (entries c) k = Some r \<Longrightarrow>
     lru_cache_wrapper f c k =
       (Inr r, c\<lparr>entries := (k, r) # filter (\<lambda>e. fst e \<noteq> k) (entries c), hits := hits c + 1\<rparr>)"
  by (simp add: lru_cache_wrapper_def)

lemma wrapper_miss_raise:
  "map_of (entries c) k = None \<Longrightarrow> f k = Inl e \<Longrightarrow>
     lru_cache_wrapper f c k = (Inl e, c\<lparr>misses := misses c + 1\<rparr>)"
  by (simp add: lru_cache_wrapper_def)

lemma wrapper_miss_store:
  "map_of (entries c) k = None \<Longrightarrow> f k = Inr v \<Longrightarrow>
     lru_cache_wrapper f c k =
       (Inr (misses c, v),
        c\<lparr>entries := (k, (misses c, v)) #
                 (if maxsize \<le> length (entries c) then butlast (entries c) else entries c),
          misses := misses c + 1\<rparr>)"
  by (simp add: lru_cache_wrapper_def Let_def)

lemma wrapper_distinct:
  assumes "distinct (map fst (entries c))"
  shows "distinct (map fst (entries (snd (lru_cache_wrapper f c k))))"
proof (cases "map_of (entries c) k")
  case None
  then have k: "k \<notin> set (map fst (entries c))" by (simp add: map_of_eq_None_iff)
  have b: "distinct (map fst (butlast (entries c)))" "k \<notin> set (map fst (butlast (entries c)))"
    using assms k by (auto simp: map_butlast distinct_butlast dest: in_set_butlastD)
  show ?thesis
    using None assms k b
    by (cases "f k") (simp_all add: lru_cache_wrapper_def Let_def del: set_map)
next
  case (Some r)
  then show ?thesis using assms
    by (auto simp: lru_cache_wrapper_def distinct_map_filter)
qed

lemma after_calls_distinct:
  "distinct (map fst (entries c)) \<Longrightarrow> distinct (map fst (entries (after_calls c ks)))"
  by (induction ks arbitrary: c) (simp_all add: calculate_helix_coordinates_cached_def wrapper_distinct)

lemma wrapper_misses_mono: "misses c \<le> misses (snd (lru_cache_wrapper f c k))"
  by (auto simp: lru_cache_wrapper_def Let_def split: option.splits sum.splits)

lemma after_calls_misses_mono: "misses c \<le> misses (after_calls c ks)"
proof (induction ks arbitrary: c)
  case Nil
  then show ?case by simp
next
  case (Cons k ks)
  have "misses c \<le> misses (snd (calculate_helix_coordinates_cached c k))"
    by (simp add: calculate_helix_coordinates_cached_def wrapper_misses_mono)
  also have "\<dots> \<le> misses (after_calls (snd (calculate_helix_coordinates_cached c k)) ks)"
    by (rule Cons.IH)
  finally show ?case by simp
qed

lemma holdsI:
  "distinct (map fst (entries c)) \<Longrightarrow> entries c = newer @ (N, r) # older
     \<Longrightarrow> fst ` set newer \<subseteq> P \<Longrightarrow> holds N r P c"
  unfolding holds_def by blast

lemma holds_lookup:
  assumes "holds N r P c" "N \<notin> P"
  shows "map_of (entries c) N = Some r"
proof -
  from assms obtain newer older where
    e: "entries c = newer @ (N, r) # older" and p: "fst ` set newer \<subseteq> P"
    by (auto simp: holds_def)
  have "N \<notin> fst ` set newer" using p assms(2) by auto
  then have "map_of newer N = None" by (simp add: map_of_eq_None_iff)
  then show ?thesis by (simp add: e map_of_append map_add_def)
qed

lemma holds_hit:
  assumes "holds N r P c" "N \<notin> P"
  shows "lru_cache_wrapper f c N =
           (Inr r, c\<lparr>entries := (N, r) # filter (\<lambda>e. fst e \<noteq> N) (entries c), hits := hits c + 1\<rparr>)"
  by (rule wrapper_hit[OF holds_lookup[OF assms]])

lemma holds_step:
  assumes h: "holds N r P c" and N: "N \<notin> P" and fin: "finite P"
    and card: "card (insert k P - {N}) < maxsize"
  shows "holds N r (insert k P - {N}) (snd (lru_cache_wrapper f c k))"
proof -
  from h obtain newer older where
    e: "entries c = newer @ (N, r) # older" and p: "fst ` set newer \<subseteq> P"
    and d: "distinct (map fst (entries c))"
    by (auto simp: holds_def)
  have d': "distinct (map fst (entries (snd (lru_cache_wrapper f c k))))"
    by (rule wrapper_distinct[OF d])
  have Nfront: "N \<notin> fst ` set newer" using p N by auto
  show ?thesis
  proof (cases "k = N")
    case True
    have "entries (snd (lru_cache_wrapper f c k)) = [] @ (N, r) # filter (\<lambda>e. fst e \<noteq> N) (entries c)"
      using holds_hit[OF h N, of f] True by simp
    then show ?thesis by (rule holdsI[OF d']) simp
  next
    case kN: False
    show ?thesis
    proof (cases "map_of (entries c) k")
      case (Some r')
      have "entries (snd (lru_cache_wrapper f c k)) =
                   ((k, r') # filter (\<lambda>e. fst e \<noteq> k) newer) @ (N, r) # filter (\<lambda>e. fst e \<noteq> k) older"
        using kN by (simp add: wrapper_hit[OF Some] e)
      moreover have "fst ` set ((k, r') # filter (\<lambda>e. fst e \<noteq> k) newer) \<subseteq> insert k P - {N}"
        using p Nfront kN by auto
      ultimately show ?thesis by (rule holdsI[OF d'])
    next
      case None
      then have knew: "k \<notin> fst ` set (entries c)" by (simp add: map_of_eq_None_iff)
      show ?thesis
      proof (cases "f k")
        case (Inl err)
        have "entries (snd (lru_cache_wrapper f c k)) = newer @ (N, r) # older"
          by (simp add: wrapper_miss_raise[where f=f, OF None Inl] e)
        moreover have "fst ` set newer \<subseteq> insert k P - {N}" using p Nfront by auto
        ultimately show ?thesis by (rule holdsI[OF d'])
      next
        case (Inr v)
        have older: "older \<noteq> []" if full: "maxsize \<le> length (entries c)"
        proof
          assume "older = []"
          then have len: "maxsize \<le> Suc (length newer)" using full e by simp
          have "distinct (map fst newer)" using d e by simp
          then have "card (fst ` set newer) = length newer"
            using distinct_card[of "map fst newer"] by simp
          moreover have "k \<notin> fst ` set newer" using knew e by auto
          ultimately have "card (insert k (fst ` set newer)) = Suc (length newer)" by simp
          moreover have "insert k (fst ` set newer) \<subseteq> insert k P - {N}"
            using p Nfront kN by auto
          moreover have "finite (insert k P - {N})" using fin by simp
          ultimately have "Suc (length newer) \<le> card (insert k P - {N})"
            using card_mono[of "insert k P - {N}" "insert k (fst ` set newer)"] by simp
          with len card show False by simp
        qed
        let ?kept = "if maxsize \<le> length (entries c) then butlast older else older"
        have "entries (snd (lru_cache_wrapper f c k)) =
                ((k, (misses c, v)) # newer) @ (N, r) # ?kept"
          using older by (simp add: wrapper_miss_store[where f=f, OF None Inr] e butlast_append)
        moreover have "fst ` set ((k, (misses c, v)) # newer) \<subseteq> insert k P - {N}"
          using p Nfront kN by auto
        ultimately show ?thesis by (rule holdsI[OF d'])
      qed
    qed
  qed
qed

lemma holds_after_calls:
  assumes "holds N r P c" "N \<notin> P" "finite P" "card (P \<union> (set ks - {N})) < maxsize"
  shows "holds N r (P \<union> (set ks - {N})) (after_calls c ks)"
  using assms
proof (induction ks arbitrary: c P)
  case Nil
  then show ?case by simp
next
  case (Cons k ks)
  let ?P = "insert k P - {N}"
  let ?c = "snd (calculate_helix_coordinates_cached c k)"
  have fin: "finite (P \<union> (set (k # ks) - {N}))" using Cons.prems(3) by simp
  have sub: "?P \<subseteq> P \<union> (set (k # ks) - {N})" by auto
  have "card ?P \<le> card (P \<union> (set (k # ks) - {N}))" by (rule card_mono[OF fin sub])
  then have c1: "card ?P < maxsize" using Cons.prems(4) by simp
  have h: "holds N r ?P ?c"
    unfolding calculate_helix_coordinates_cached_def
    by (rule holds_step[OF Cons.prems(1) Cons.prems(2) Cons.prems(3) c1])
  have eq: "?P \<union> (set ks - {N}) = P \<union> (set (k # ks) - {N})"
    using Cons.prems(2) by auto
  have "holds N r (?P \<union> (set ks - {N})) (after_calls ?c ks)"
  proof (rule Cons.IH[OF h])
    show "N \<notin> ?P" by simp
    show "finite ?P" using Cons.prems(3) by simp
    show "card (?P \<union> (set ks - {N})) < maxsize" using Cons.prems(4) eq by simp
  qed
  then show ?case using eq by simp
qed

lemma first_call_holds:
  assumes d: "distinct (map fst (entries c))" and f: "f N = Inr v"
  shows "\<exists>r. fst (lru_cache_wrapper f c N) = Inr r \<and> holds N r {} (snd (lru_cache_wrapper f c N))"
proof -
  have d': "distinct (map fst (entries (snd (lru_cache_wrapper f c N))))"
    by (rule wrapper_distinct[OF d])
  show ?thesis
  proof (cases "map_of (entries c) N")
    case None
    let ?r = "(misses c, v)"
    have "fst (lru_cache_wrapper f c N) = Inr ?r"
      by (simp add: wrapper_miss_store[where f=f, OF None f])
    moreover have "\<exists>older. entries (snd (lru_cache_wrapper f c N)) = [] @ (N, ?r) # older"
      by (simp add: wrapper_miss_store[where f=f, OF None f])
    ultimately show ?thesis using holdsI[OF d', of "[]" N "(misses c, v)" _ "{}"] by auto
  next
    case (Some r)
    have "fst (lru_cache_wrapper f c N) = Inr r"
      by (simp add: wrapper_hit[OF Some])
    moreover have "\<exists>older. entries (snd (lru_cache_wrapper f c N)) = [] @ (N, r) # older"
      by (simp add: wrapper_hit[OF Some])
    ultimately show ?thesis using holdsI[OF d', of "[]" N r _ "{}"] by auto
  qed
qed

lemma calculate_helix_coordinates_returns:
  "0 \<le> N \<Longrightarrow> \<exists>coords. calculate_helix_coordinates N = Inr coords"
  by (simp add: calculate_helix_coordinates_def linspace_samples)

text \<open>
  Claim C3, amended. The cache holds at most \<open>maxsize = 128\<close> results and evicts the
  least recently used one. For a positive \<open>N\<close>, after any earlier calls, if fewer than
  128 distinct base-pair counts other than \<open>N\<close> are requested between two calls for
  \<open>N\<close>, the second call returns the very object the first one returned (same tag, same
  contents) and is a cache hit: the function body does not run again.
\<close>

theorem cached_coordinates_reused:
  assumes "0 < N" and "card (set ks - {N}) < maxsize"
  shows "let c0 = after_calls new_cache history;
             (r1, c1) = calculate_helix_coordinates_cached c0 N;
             c2 = after_calls c1 ks;
             (r2, c3) = calculate_helix_coordinates_cached c2 N
         in (\<exists>coords. r1 = Inr coords) \<and> r2 = r1 \<and> misses c3 = misses c2 \<and> hits c3 = hits c2 + 1"
proof -
  define c0 :: "(real list list) lru_cache" where "c0 = after_calls new_cache history"
  define c1 where "c1 = snd (calculate_helix_coordinates_cached c0 N)"
  define c2 where "c2 = after_calls c1 ks"
  have d0: "distinct (map fst (entries c0))"
    unfolding c0_def by (rule after_calls_distinct) (simp add: new_cache_def)
  from assms(1) obtain v where v: "calculate_helix_coordinates N = Inr v"
    using calculate_helix_coordinates_returns[of N] by auto
  from first_call_holds[of c0 calculate_helix_coordinates N v, OF d0 v] obtain r where
    r1: "fst (calculate_helix_coordinates_cached c0 N) = Inr r" and h1: "holds N r {} c1"
    unfolding c1_def calculate_helix_coordinates_cached_def by blast
  have "holds N r ({} \<union> (set ks - {N})) c2"
    unfolding c2_def using assms(2) by (intro holds_after_calls[OF h1]) simp_all
  then have h2: "holds N r (set ks - {N}) c2" by simp
  have hit: "calculate_helix_coordinates_cached c2 N =
           (Inr r, c2\<lparr>entries := (N, r) # filter (\<lambda>e. fst e \<noteq> N) (entries c2), hits := hits c2 + 1\<rparr>)"
    unfolding calculate_helix_coordinates_cached_def by (rule holds_hit[OF h2]) simp
  show ?thesis
    using r1 hit
    by (simp add: Let_def case_prod_beta c0_def[symmetric] c1_def[symmetric] c2_def[symmetric])
qed


lemma wrapper_keys:
  assumes "f k = Inr v"
  shows "map fst (entries (snd (lru_cache_wrapper f c k))) = touch (map fst (entries c)) k"
proof (cases "map_of (entries c) k")
  case None
  then have "k \<notin> set (map fst (entries c))" by (simp add: map_of_eq_None_iff)
  then show ?thesis
    by (simp add: wrapper_miss_store[where f=f, OF None assms] touch_def map_butlast del: set_map)
next
  case (Some r)
  then have "k \<in> set (map fst (entries c))"
    using map_of_eq_None_iff[of "entries c" k] by simp
  then show ?thesis
    by (simp add: wrapper_hit[OF Some] touch_def filter_map comp_def del: set_map)
qed

lemma after_calls_keys:
  "\<forall>k \<in> set ks. 0 \<le> k \<Longrightarrow>
     map fst (entries (after_calls c ks)) = foldl touch (map fst (entries c)) ks"
proof (induction ks arbitrary: c)
  case Nil
  then show ?case by simp
next
  case (Cons k ks)
  from Cons.prems obtain v where v: "calculate_helix_coordinates k = Inr v"
    using calculate_helix_coordinates_returns[of k] by auto
  have "map fst (entries (snd (calculate_helix_coordinates_cached c k))) = touch (map fst (entries c)) k"
    unfolding calculate_helix_coordinates_cached_def by (rule wrapper_keys[where f=calculate_helix_coordinates, OF v])
  with Cons show ?case by simp
qed

lemma evicted_keys: "1 \<notin> set (foldl touch [1] [2..129])"
  by code_simp

text \<open>
  Claim C3, as stated, fails: after a first call for 1 on a fresh cache and calls for the
  128 other counts 2, ..., 129, the entry for 1 has been evicted; the second call for 1
  runs the body again and returns a new object.
\<close>

theorem cached_coordinates_evicted_counterexample:
  "let (r1, c1) = calculate_helix_coordinates_cached new_cache 1;
       c2 = after_calls c1 [2..129];
       (r2, c3) = calculate_helix_coordinates_cached c2 1
   in r2 \<noteq> r1 \<and> misses c3 = misses c2 + 1"
proof -
  obtain v where v: "calculate_helix_coordinates 1 = Inr v"
    using calculate_helix_coordinates_returns[of 1] by auto
  define c1 where "c1 = snd (calculate_helix_coordinates_cached new_cache 1)"
  define c2 where "c2 = after_calls c1 [2..129]"
  have n: "map_of (entries (new_cache :: (real list list) lru_cache)) 1 = None"
    by (simp add: new_cache_def)
  have first: "calculate_helix_coordinates_cached new_cache 1 =
      (Inr (0, v), \<lparr>entries = [(1, (0, v))], hits = 0, misses = 1\<rparr>)"
    unfolding calculate_helix_coordinates_cached_def
    by (simp add: wrapper_miss_store[where f=calculate_helix_coordinates, OF n v])
       (simp add: new_cache_def maxsize_def)
  have c1: "c1 = \<lparr>entries = [(1, (0, v))], hits = 0, misses = 1\<rparr>"
    by (simp add: c1_def first)
  have "map fst (entries c2) = foldl touch (map fst (entries c1)) [2..129]"
    unfolding c2_def by (rule after_calls_keys) simp
  then have "1 \<notin> set (map fst (entries c2))"
    using evicted_keys by (simp add: c1)
  then have gone: "map_of (entries c2) 1 = None"
    by (simp add: map_of_eq_None_iff)
  have "misses c1 \<le> misses c2"
    unfolding c2_def by (rule after_calls_misses_mono)
  moreover have "misses c1 = 1" by (simp add: c1)
  ultimately have m: "1 \<le> misses c2" by simp
  have second: "calculate_helix_coordinates_cached c2 1 =
      (Inr (misses c2, v),
       c2\<lparr>entries := (1, (misses c2, v)) #
                (if maxsize \<le> length (entries c2) then butlast (entries c2) else entries c2),
          misses := misses c2 + 1\<rparr>)"
    unfolding calculate_helix_coordinates_cached_def
    by (rule wrapper_miss_store[where f=calculate_helix_coordinates, OF gone v])
  have r1: "fst (calculate_helix_coordinates_cached new_cache 1) = Inr (0, v)"
    by (simp add: first)
  show ?thesis
    unfolding Let_def case_prod_beta c1_def[symmetric] c2_def[symmetric]
    using m by (simp add: r1 second)
qed

theorem cached_coordinates_reused_witness:
  "let (r1, c1) = calculate_helix_coordinates_cached new_cache 5;
       c2 = after_calls c1 [3, 7, 3];
       (r2, c3) = calculate_helix_coordinates_cached c2 5
   in (\<exists>coords. r1 = Inr coords) \<and> r2 = r1 \<and> misses c3 = misses c2 \<and> hits c3 = hits c2 + 1"
proof -
  have n: "(0::int) < 5" by simp
  have "set [3, 7, 3] - {5} = {3, 7 :: int}" by auto
  then have k: "card (set [3, 7, 3] - {5 :: int}) < maxsize" by (simp add: maxsize_def)
  show ?thesis
    using cached_coordinates_reused[OF n k, of "[]"] by simp
qed

subsection \<open>The parser\<close>


lemma str_split_no_sep: "sep \<notin> set s \<Longrightarrow> str_split sep s = [s]"
  by (induction s) auto



lemma split_line_blank:
  assumes "CHR ''#'' \<notin> set line" and "str_strip [CHR '' '', CR, LF] line = []"
  shows "split_line line = []"
  using assms by (simp add: split_line_def str_split_no_sep)













subsection \<open>The rendering paths\<close>




lemma calculate_helix_coordinates_neg:
  "n < 0 \<Longrightarrow> calculate_helix_coordinates n = Inl ValueError"
  by (simp add: calculate_helix_coordinates_def linspace_neg)

lemma calculate_helix_coordinates_Inl:
  assumes "calculate_helix_coordinates n = Inl e"
  shows "e = ValueError \<and> n < 0"
proof (cases "0 \<le> n")
  case True
  then show ?thesis using assms by (simp add: calculate_helix_coordinates_nonneg)
next
  case False
  then show ?thesis using assms by (simp add: calculate_helix_coordinates_neg)
qed



























subsection \<open>The cache does not change results\<close>

text \<open>
  Every cached object holds what the function body returns for its key, so a call through
  the decorator returns the contents (or raises the exception) of a direct call. This is
  why the rendering paths are modelled on the function body.
\<close>

lemma wrapper_coherent:
  assumes "\<forall>(k, r) \<in> set (entries c). f k = Inr (snd r)"
  shows "(\<forall>(k, r) \<in> set (entries (snd (lru_cache_wrapper f c key))). f k = Inr (snd r))
       \<and> (case fst (lru_cache_wrapper f c key) of
             Inl e \<Rightarrow> f key = Inl e
           | Inr r \<Rightarrow> f key = Inr (snd r))"
proof (cases "map_of (entries c) key")
  case None
  show ?thesis
  proof (cases "f key")
    case (Inl e)
    then show ?thesis using assms by (simp add: wrapper_miss_raise[where f=f, OF None Inl])
  next
    case (Inr v)
    have "set (butlast (entries c)) \<subseteq> set (entries c)"
      by (auto dest: in_set_butlastD)
    then show ?thesis
      using assms Inr by (auto simp: wrapper_miss_store[where f=f, OF None Inr])
  qed
next
  case (Some r)
  then have "(key, r) \<in> set (entries c)" by (rule map_of_SomeD)
  then show ?thesis
    using assms by (auto simp: wrapper_hit[OF Some])
qed

lemma after_calls_coherent:
  assumes "\<forall>(k, r) \<in> set (entries c). calculate_helix_coordinates k = Inr (snd r)"
  shows "\<forall>(k, r) \<in> set (entries (after_calls c ks)). calculate_helix_coordinates k = Inr (snd r)"
  using assms
proof (induction ks arbitrary: c)
  case Nil
  then show ?case by simp
next
  case (Cons k ks)
  have "\<forall>(j, r) \<in> set (entries (snd (calculate_helix_coordinates_cached c k))).
          calculate_helix_coordinates j = Inr (snd r)"
    unfolding calculate_helix_coordinates_cached_def
    using wrapper_coherent[where f=calculate_helix_coordinates, OF Cons.prems] by blast
  then show ?case by (simp add: Cons.IH)
qed

lemma cached_call_contents:
  "(case fst (calculate_helix_coordinates_cached (after_calls new_cache history) n) of
      Inl e \<Rightarrow> calculate_helix_coordinates n = Inl e
    | Inr r \<Rightarrow> calculate_helix_coordinates n = Inr (snd r))"
proof -
  have "\<forall>(k, r) \<in> set (entries (after_calls new_cache history)).
          calculate_helix_coordinates k = Inr (snd r)"
    by (rule after_calls_coherent) (simp add: new_cache_def)
  then show ?thesis
    unfolding calculate_helix_coordinates_cached_def
    using wrapper_coherent[where f=calculate_helix_coordinates] by blast
qed

end
